theory Spec2Isabelle
  imports Main
begin

section \<open>Python strings\<close>

text \<open>
  A Python \<open>str\<close> is a sequence of Unicode code points, and every offset of the
  program counts code points. A string is therefore a list of code points, each the
  integer that \<open>ord\<close> gives: the right single quotation mark U+2019 is the one element
  \<open>8217\<close>.
\<close>

type_synonym codepoint = int
type_synonym ustring = "codepoint list"

definition ustr :: "string \<Rightarrow> ustring" where
  "ustr s = map of_char s"

text \<open>
  \<open>str.isspace\<close>, \<open>str.strip\<close> and the regular expression classes \<open>\s\<close>, \<open>\S\<close>
  share one table of whitespace: U+0009..U+000D, U+001C..U+0020, U+0085, U+00A0, U+1680,
  U+2000..U+200A, U+2028, U+2029, U+202F, U+205F, U+3000.
\<close>

definition isspace :: "codepoint \<Rightarrow> bool" where
  "isspace c =
     ((9 \<le> c \<and> c \<le> 13) \<or> (28 \<le> c \<and> c \<le> 32) \<or> c = 133 \<or> c = 160 \<or> c = 5760
      \<or> (8192 \<le> c \<and> c \<le> 8202) \<or> c = 8232 \<or> c = 8233 \<or> c = 8239 \<or> c = 8287
      \<or> c = 12288)"

definition rstrip :: "ustring \<Rightarrow> ustring" where
  "rstrip s = rev (dropWhile isspace (rev s))"

definition strip :: "ustring \<Rightarrow> ustring" where
  "strip s = dropWhile isspace (rstrip s)"

text \<open>\<open>s.rstrip(chars)\<close>: drop the trailing characters that occur in \<open>chars\<close>.\<close>

definition rstrip_chars :: "ustring \<Rightarrow> ustring \<Rightarrow> ustring" where
  "rstrip_chars chars s = rev (dropWhile (\<lambda>c. c \<in> set chars) (rev s))"

text \<open>
  \<open>str.lower\<close>, one code point at a time. The code points whose lowercase contains an
  ASCII character are \<open>A\<close>..\<open>Z\<close>, U+0130 (to \<open>i\<close> followed by U+0307) and the Kelvin sign
  U+212A (to \<open>k\<close>); ASCII characters other than \<open>A\<close>..\<open>Z\<close> are unchanged. Every other
  code point is lowered by Python to non-ASCII code points; the program only tests the
  lowered word for membership in the all-ASCII title dictionary, and the model leaves
  those code points as they are.
\<close>

definition lower_cp :: "codepoint \<Rightarrow> ustring" where
  "lower_cp c =
     (if 65 \<le> c \<and> c \<le> 90 then [c + 32]
      else if c = 304 then [105, 775]
      else if c = 8490 then [107]
      else [c])"

definition lower :: "ustring \<Rightarrow> ustring" where
  "lower s = concat (map lower_cp s)"

text \<open>
  Slices \<open>s[:j]\<close>, \<open>s[i:]\<close> and \<open>s[i:j]\<close> with Python's treatment of the bounds: a
  negative bound counts from the end, and every bound is clamped to \<open>0..len(s)\<close>.
\<close>

definition clamp_index :: "int \<Rightarrow> nat \<Rightarrow> nat" where
  "clamp_index i n = (if i < 0 then nat (max 0 (int n + i)) else min (nat i) n)"

definition slice_to :: "ustring \<Rightarrow> int \<Rightarrow> ustring" where
  "slice_to s j = take (clamp_index j (length s)) s"

definition slice_from :: "ustring \<Rightarrow> int \<Rightarrow> ustring" where
  "slice_from s i = drop (clamp_index i (length s)) s"

definition slice :: "ustring \<Rightarrow> int \<Rightarrow> int \<Rightarrow> ustring" where
  "slice s i j =
     (let lo = clamp_index i (length s); hi = clamp_index j (length s)
      in take (hi - lo) (drop lo s))"

definition startswith :: "ustring \<Rightarrow> ustring \<Rightarrow> bool" where
  "startswith s p = (take (length p) s = p)"

text \<open>
  \<open>s.rfind(p)\<close>: the highest index at which \<open>p\<close> occurs in \<open>s\<close>, or \<open>-1\<close>. The search
  runs downwards from the last index at which \<open>p\<close> still fits.
\<close>

fun rfind_from :: "ustring \<Rightarrow> ustring \<Rightarrow> nat \<Rightarrow> int" where
  "rfind_from s p 0 = (if startswith s p then 0 else - 1)"
| "rfind_from s p (Suc i) =
     (if startswith (drop (Suc i) s) p then int (Suc i) else rfind_from s p i)"

definition rfind :: "ustring \<Rightarrow> ustring \<Rightarrow> int" where
  "rfind s p = (if length s < length p then - 1 else rfind_from s p (length s - length p))"

section \<open>The regular expressions of the program\<close>

text \<open>
  In Python \<open>$\<close> (without MULTILINE) matches at the end of the string and also just
  before a line feed that is the last character.
\<close>

definition at_dollar :: "ustring \<Rightarrow> bool" where
  "at_dollar rest = (rest = [] \<or> rest = [10])"

text \<open>
  \<open>(\S+)$\<close> tried at the head of \<open>s\<close>: the greedy run of non-whitespace must be
  non-empty and stop at \<open>$\<close>. A shorter run stops before a non-whitespace character,
  where \<open>$\<close> cannot match, so backtracking finds nothing more. The result is group 1.
\<close>

definition match_word_end :: "ustring \<Rightarrow> ustring option" where
  "match_word_end s =
     (let run = takeWhile (\<lambda>c. \<not> isspace c) s; rest = dropWhile (\<lambda>c. \<not> isspace c) s
      in if run \<noteq> [] \<and> at_dollar rest then Some run else None)"

text \<open>\<open>re.search(r'(\S+)$', s)\<close>: the match at the leftmost position that has one.\<close>

fun search_word_end :: "ustring \<Rightarrow> ustring option" where
  "search_word_end [] = match_word_end []"
| "search_word_end (c # cs) =
     (case match_word_end (c # cs) of
        Some g \<Rightarrow> Some g
      | None \<Rightarrow> search_word_end cs)"

text \<open>
  The possessive pattern: an apostrophe (U+0027) or a right single quotation mark
  (U+2019), then \<open>s\<close>, then \<open>$\<close>. Here it is tried at the head of the string; the
  result is what follows the match.
\<close>

fun match_possessive :: "ustring \<Rightarrow> ustring option" where
  "match_possessive (q # c # rest) =
     (if (q = 39 \<or> q = 8217) \<and> c = 115 \<and> at_dollar rest then Some rest else None)"
| "match_possessive s = None"

text \<open>\<open>re.search\<close> of the possessive pattern, as a truth value.\<close>

fun search_possessive :: "ustring \<Rightarrow> bool" where
  "search_possessive [] = False"
| "search_possessive (c # cs) =
     (case match_possessive (c # cs) of
        Some rest \<Rightarrow> True
      | None \<Rightarrow> search_possessive cs)"

text \<open>
  \<open>re.sub\<close> of the possessive pattern by the empty string: every match, found from
  left to right without overlap, is removed.
\<close>

function sub_possessive :: "ustring \<Rightarrow> ustring" where
  "sub_possessive [] = []"
| "sub_possessive (c # cs) =
     (case match_possessive (c # cs) of
        Some rest \<Rightarrow> sub_possessive rest
      | None \<Rightarrow> c # sub_possessive cs)"
  by pat_completeness auto
termination
  by (relation "measure length") (auto elim!: match_possessive.elims split: if_splits)

section \<open>The title dictionary\<close>

definition TITLES :: "ustring list" where
  "TITLES = map ustr
     [''mr'', ''mrs'', ''ms'', ''dr'', ''prof'', ''sir'', ''dame'', ''lord'', ''lady'',
      ''rev'', ''sgt'', ''cpl'', ''lt'', ''capt'', ''maj'', ''col'', ''gen'', ''cmdr'',
      ''supt'', ''det'', ''insp'', ''judge'', ''justice'', ''baron'', ''baroness'',
      ''prince'', ''princess'', ''king'', ''queen'', ''president'', ''senator'',
      ''governor'', ''mayor'', ''councillor'', ''minister'', ''secretary'',
      ''cardinal'', ''archbishop'', ''bishop'', ''father'', ''sister'', ''brother'',
      ''sheikh'', ''imam'', ''rabbi'', ''ayatollah'']"

section \<open>The heuristics\<close>

text \<open>An entity of the recognizer: \<open>ent.text\<close>, \<open>ent.label_\<close>, \<open>ent.start_char\<close>,
  \<open>ent.end_char\<close>.\<close>

record entity =
  ent_text :: ustring
  label :: ustring
  start_char :: int
  end_char :: int

definition preceding_word :: "ustring \<Rightarrow> int \<Rightarrow> ustring" where
  "preceding_word text start =
     (let before = rstrip (slice_to text start)
      in case search_word_end before of
           Some g \<Rightarrow> rstrip_chars (ustr ''.,;:'') g
         | None \<Rightarrow> [])"

definition has_possessive :: "ustring \<Rightarrow> ustring \<Rightarrow> int \<Rightarrow> bool" where
  "has_possessive etext text end =
     (if search_possessive etext then True
      else let rest = slice_from text end
           in startswith rest [8217, 115] \<or> startswith rest [39, 115])"

definition is_likely_person :: "entity \<Rightarrow> ustring \<Rightarrow> bool" where
  "is_likely_person ent text =
     (if label ent = ustr ''PERSON'' then True
      else let name = strip (ent_text ent)
           in if name = [] then False
              else let prev = lower (preceding_word text (start_char ent))
                   in if prev \<in> set TITLES then True
                      else if has_possessive (ent_text ent) text (end_char ent)
                              \<and> label ent \<notin> set (map ustr [''ORG'', ''GPE'', ''FAC'', ''NORP'', ''EVENT''])
                           then True
                           else False)"

definition expand_with_title :: "ustring \<Rightarrow> int \<Rightarrow> int" where
  "expand_with_title text start =
     (let prev = preceding_word text start
      in if lower prev \<in> set TITLES
         then let before = rstrip (slice_to text start) in rfind before prev
         else start)"

text \<open>The possessive clean-up of the handler: \<open>re.sub\<close>, then \<open>strip\<close>.\<close>

definition strip_possessive :: "ustring \<Rightarrow> ustring" where
  "strip_possessive name = strip (sub_possessive name)"

section \<open>The request handler\<close>

text \<open>
  The response: \<open>{"name": ..., "positions": [{"start": ..., "end": ...}, ...]}\<close> for each
  name.
\<close>

record occurrence =
  start_pos :: int
  end_pos :: int

record person_record =
  name :: ustring
  positions :: "occurrence list"

text \<open>
  \<open>by_name\<close> is a Python \<open>dict\<close>, which keeps its keys in insertion order: an association
  list with one entry for each key. \<open>k in d\<close>, \<open>d[k] = v\<close> and \<open>list(d.values())\<close> are:
\<close>

type_synonym ('k, 'v) dict = "('k \<times> 'v) list"

definition contains :: "('k, 'v) dict \<Rightarrow> 'k \<Rightarrow> bool" where
  "contains d k = (k \<in> set (map fst d))"

fun setitem :: "('k, 'v) dict \<Rightarrow> 'k \<Rightarrow> 'v \<Rightarrow> ('k, 'v) dict" where
  "setitem [] k v = [(k, v)]"
| "setitem ((k', v') # d) k v =
     (if k' = k then (k, v) # d else (k', v') # setitem d k v)"

definition dict_values :: "('k, 'v) dict \<Rightarrow> 'v list" where
  "dict_values d = map snd d"

text \<open>
  \<open>by_name[name]["positions"].append(p)\<close> changes the record stored under \<open>name\<close> in
  place. A missing key would raise \<open>KeyError\<close>; the handler stores the key first, so the
  model leaves a dictionary without the key as it is.
\<close>

fun append_position :: "(ustring, person_record) dict \<Rightarrow> ustring \<Rightarrow> occurrence
    \<Rightarrow> (ustring, person_record) dict" where
  "append_position [] k p = []"
| "append_position ((k', r) # d) k p =
     (if k' = k then (k', r\<lparr>positions := positions r @ [p]\<rparr>) # d
      else (k', r) # append_position d k p)"

text \<open>The body of the loop over \<open>doc.ents\<close>.\<close>

definition handle_entity :: "ustring \<Rightarrow> (ustring, person_record) dict \<Rightarrow> entity
    \<Rightarrow> (ustring, person_record) dict" where
  "handle_entity text by_name ent =
     (if \<not> is_likely_person ent text then by_name
      else let start = expand_with_title text (start_char ent);
               end = end_char ent;
               raw = strip (slice text start end);
               name = strip_possessive raw
           in if name = [] then by_name
              else let by_name' =
                         (if \<not> contains by_name name
                          then setitem by_name name \<lparr>name = name, positions = []\<rparr>
                          else by_name)
                   in append_position by_name' name \<lparr>start_pos = start, end_pos = end\<rparr>)"

text \<open>
  The recognizer \<open>nlp\<close> is a collaborator outside the program. It is a parameter that
  takes the text and a state \<open>'s\<close> of its own (whatever it keeps between calls) and
  returns the entities with the new state. The handler returns the records and the
  state, so that a call of the recognizer shows in the result.
\<close>

definition extract_names :: "(ustring \<Rightarrow> 's \<Rightarrow> entity list \<times> 's) \<Rightarrow> ustring \<Rightarrow> 's
    \<Rightarrow> person_record list \<times> 's" where
  "extract_names nlp text s =
     (if strip text = [] then ([], s)
      else let (ents, s') = nlp text s
           in (dict_values (foldl (handle_entity text) [] ents), s'))"

section \<open>Notions of the specification\<close>

text \<open>
  The specification describes the word before an offset as the maximal run of
  non-whitespace that ends the whitespace-trimmed prefix, without its trailing
  punctuation. \<open>last_token\<close> is that run, \<open>prev_word\<close> the word.
\<close>

definition last_token :: "ustring \<Rightarrow> ustring" where
  "last_token b = rev (takeWhile (\<lambda>c. \<not> isspace c) (rev b))"

definition prev_word :: "ustring \<Rightarrow> int \<Rightarrow> ustring" where
  "prev_word text start =
     rstrip_chars (ustr ''.,;:'') (last_token (rstrip (slice_to text start)))"

definition endswith :: "ustring \<Rightarrow> ustring \<Rightarrow> bool" where
  "endswith s suf = (length suf \<le> length s \<and> drop (length s - length suf) s = suf)"

text \<open>The two possessive markers: apostrophe and \<open>s\<close>, right single quotation mark and \<open>s\<close>.\<close>

definition markers :: "ustring list" where
  "markers = [[39, 115], [8217, 115]]"

definition ends_possessive :: "ustring \<Rightarrow> bool" where
  "ends_possessive s = (\<exists>m\<in>set markers. endswith s m)"

definition starts_possessive :: "ustring \<Rightarrow> bool" where
  "starts_possessive s = (\<exists>m\<in>set markers. startswith s m)"

definition non_person_labels :: "ustring list" where
  "non_person_labels = map ustr [''ORG'', ''GPE'', ''FAC'', ''NORP'', ''EVENT'']"

text \<open>
  The person classifier in the words of the specification: the label is PERSON; or the
  entity text is not blank and either a title precedes the entity, or the entity is
  possessive (its text ends with a marker, or a marker follows its end) and the label
  is none of ORG, GPE, FAC, NORP, EVENT.
\<close>

definition is_person :: "entity \<Rightarrow> ustring \<Rightarrow> bool" where
  "is_person ent text =
     (label ent = ustr ''PERSON''
      \<or> (strip (ent_text ent) \<noteq> []
          \<and> (lower (prev_word text (start_char ent)) \<in> set TITLES
              \<or> ((ends_possessive (ent_text ent)
                   \<or> starts_possessive (slice_from text (end_char ent)))
                  \<and> label ent \<notin> set non_person_labels))))"

text \<open>First-seen order: each element once, at the place of its first occurrence.\<close>

fun first_seen :: "'a list \<Rightarrow> 'a list" where
  "first_seen [] = []"
| "first_seen (x # xs) = x # removeAll x (first_seen xs)"

text \<open>
  For one entity: the text the handler extracts (from the expanded start to the
  entity's end, trimmed), and the occurrence it records.
\<close>

definition extracted_text :: "ustring \<Rightarrow> entity \<Rightarrow> ustring" where
  "extracted_text text ent =
     strip (slice text (expand_with_title text (start_char ent)) (end_char ent))"

definition occurrence_of :: "ustring \<Rightarrow> entity \<Rightarrow> occurrence" where
  "occurrence_of text ent =
     \<lparr>start_pos = expand_with_title text (start_char ent), end_pos = end_char ent\<rparr>"

text \<open>
  What one entity contributes to the response: nothing when it is skipped, otherwise
  its normalized name and its occurrence. \<open>occurrences\<close> collects them in the order of
  the recognizer's entities.
\<close>

definition candidate :: "ustring \<Rightarrow> entity \<Rightarrow> (ustring \<times> occurrence) option" where
  "candidate text ent =
     (if is_likely_person ent text \<and> strip_possessive (extracted_text text ent) \<noteq> []
      then Some (strip_possessive (extracted_text text ent), occurrence_of text ent)
      else None)"

definition occurrences :: "ustring \<Rightarrow> entity list \<Rightarrow> (ustring \<times> occurrence) list" where
  "occurrences text ents = List.map_filter (candidate text) ents"

text \<open>The occurrences recorded under one name, in the order met.\<close>

definition positions_of :: "ustring \<Rightarrow> (ustring \<times> occurrence) list \<Rightarrow> occurrence list" where
  "positions_of n occs = map snd (filter (\<lambda>x. fst x = n) occs)"

text \<open>The entities the handler gets from the recognizer: none when the text is blank.\<close>

definition recognized :: "(ustring \<Rightarrow> 's \<Rightarrow> entity list \<times> 's) \<Rightarrow> ustring \<Rightarrow> 's \<Rightarrow> entity list" where
  "recognized nlp text s = (if strip text = [] then [] else fst (nlp text s))"

text \<open>The start index of the token that ends the trimmed prefix.\<close>

definition token_start :: "ustring \<Rightarrow> int \<Rightarrow> nat" where
  "token_start text start =
     (let b = rstrip (slice_to text start) in length b - length (last_token b))"

text \<open>
  A text that ends with a possessive marker, or with a marker and one final line feed:
  the two places at which \<open>$\<close> lets the possessive pattern end.
\<close>

definition ends_possessive_line :: "ustring \<Rightarrow> bool" where
  "ends_possessive_line s =
     (ends_possessive s \<or> (\<exists>m\<in>set markers. endswith s (m @ [10])))"

text \<open>
  Recording one occurrence in the dictionary, as the end of the loop body does, and the
  dictionary that groups a list of occurrences by name.
\<close>

definition add_occurrence :: "(ustring, person_record) dict \<Rightarrow> ustring \<times> occurrence
    \<Rightarrow> (ustring, person_record) dict" where
  "add_occurrence d x =
     append_position
       (if \<not> contains d (fst x) then setitem d (fst x) \<lparr>name = fst x, positions = []\<rparr> else d)
       (fst x) (snd x)"

definition group_dict :: "(ustring \<times> occurrence) list \<Rightarrow> (ustring, person_record) dict" where
  "group_dict occs =
     map (\<lambda>n. (n, \<lparr>name = n, positions = positions_of n occs\<rparr>)) (first_seen (map fst occs))"

text \<open>
  A recognizer for the examples: it returns the given entities for every text and
  counts its calls in its state.
\<close>

definition counting_nlp :: "entity list \<Rightarrow> ustring \<Rightarrow> nat \<Rightarrow> entity list \<times> nat" where
  "counting_nlp ents text n = (ents, Suc n)"

definition person :: "ustring \<Rightarrow> int \<Rightarrow> int \<Rightarrow> entity" where
  "person t i j = \<lparr>ent_text = t, label = ustr ''PERSON'', start_char = i, end_char = j\<rparr>"

section \<open>Whitespace trimming\<close>

lemma rstrip_eq_Nil_iff: "rstrip s = [] \<longleftrightarrow> (\<forall>c\<in>set s. isspace c)"
  by (auto simp: rstrip_def dropWhile_eq_Nil_conv)

lemma set_rstrip_subset: "set (rstrip s) \<subseteq> set s"
  unfolding rstrip_def using set_dropWhileD[of _ isspace "rev s"] by auto

lemma rstrip_last: "rstrip s \<noteq> [] \<Longrightarrow> \<not> isspace (last (rstrip s))"
  unfolding rstrip_def by (metis hd_dropWhile last_rev rev_is_Nil_conv)

lemma strip_eq_Nil_iff: "strip s = [] \<longleftrightarrow> (\<forall>c\<in>set s. isspace c)"
proof
  assume "strip s = []"
  then have "\<forall>c\<in>set (rstrip s). isspace c"
    by (simp add: strip_def dropWhile_eq_Nil_conv)
  then have "rstrip s = []"
    using rstrip_last[of s] last_in_set[of "rstrip s"] by blast
  then show "\<forall>c\<in>set s. isspace c" by (simp add: rstrip_eq_Nil_iff)
next
  assume "\<forall>c\<in>set s. isspace c"
  then have "rstrip s = []" by (simp add: rstrip_eq_Nil_iff)
  then show "strip s = []" by (simp add: strip_def)
qed

lemma length_rstrip_le: "length (rstrip s) \<le> length s"
  by (simp add: rstrip_def length_dropWhile_le[of isspace "rev s", simplified])

section \<open>The word before an offset, and the search for it\<close>

lemma rev_dropWhile_decomp:
  "\<exists>ws. s = rev (dropWhile P (rev s)) @ ws \<and> (\<forall>c\<in>set ws. P c)"
proof -
  have "rev s = takeWhile P (rev s) @ dropWhile P (rev s)" by simp
  then have "s = rev (dropWhile P (rev s)) @ rev (takeWhile P (rev s))"
    by (metis rev_append rev_rev_ident)
  moreover have "\<forall>c\<in>set (rev (takeWhile P (rev s))). P c"
    by (auto dest: set_takeWhileD)
  ultimately show ?thesis by blast
qed

lemma rev_dropWhile_last:
  "rev (dropWhile P (rev s)) \<noteq> [] \<Longrightarrow> \<not> P (last (rev (dropWhile P (rev s))))"
  by (metis hd_dropWhile last_rev rev_is_Nil_conv)

lemma last_token_decomp:
  "\<exists>pre. b = pre @ last_token b \<and> (pre = [] \<or> isspace (last pre))"
proof -
  let ?pre = "rev (dropWhile (\<lambda>c. \<not> isspace c) (rev b))"
  have "rev b = takeWhile (\<lambda>c. \<not> isspace c) (rev b) @ dropWhile (\<lambda>c. \<not> isspace c) (rev b)"
    by simp
  then have "b = ?pre @ last_token b"
    unfolding last_token_def by (metis rev_append rev_rev_ident)
  moreover have "?pre = [] \<or> isspace (last ?pre)"
    using rev_dropWhile_last[of "\<lambda>c. \<not> isspace c" b] by blast
  ultimately show ?thesis by blast
qed

lemma last_token_nonspace: "\<forall>c\<in>set (last_token b). \<not> isspace c"
  by (auto simp: last_token_def dest: set_takeWhileD)

lemma last_token_nonempty: "b \<noteq> [] \<Longrightarrow> \<not> isspace (last b) \<Longrightarrow> last_token b \<noteq> []"
  by (cases b rule: rev_cases) (auto simp: last_token_def)

lemma at_dollar_short: "at_dollar r \<Longrightarrow> length r \<le> 1"
  by (auto simp: at_dollar_def)

lemma match_word_end_token:
  assumes "g \<noteq> []" "\<forall>c\<in>set g. \<not> isspace c"
  shows "match_word_end g = Some g"
proof -
  have tw: "takeWhile (\<lambda>c. \<not> isspace c) g = g"
    using assms(2) by (simp add: takeWhile_eq_all_conv)
  have dw: "dropWhile (\<lambda>c. \<not> isspace c) g = []"
    using assms(2) by (simp add: dropWhile_eq_Nil_conv)
  show ?thesis
    by (simp only: match_word_end_def Let_def tw dw at_dollar_def) (simp add: assms(1))
qed

lemma dropWhile_keeps: "\<not> P w \<Longrightarrow> Suc (length g) \<le> length (dropWhile P (xs @ w # g))"
  by (induction xs) auto

lemma match_word_end_before_space:
  assumes "isspace w" "g \<noteq> []"
  shows "match_word_end (xs @ w # g) = None"
proof -
  have "Suc (length g) \<le> length (dropWhile (\<lambda>c. \<not> isspace c) (xs @ w # g))"
    using dropWhile_keeps[of "\<lambda>c. \<not> isspace c" w g xs] assms(1) by simp
  moreover have "1 \<le> length g" using assms(2) by (cases g) simp_all
  ultimately have "2 \<le> length (dropWhile (\<lambda>c. \<not> isspace c) (xs @ w # g))"
    by linarith
  then have "\<not> at_dollar (dropWhile (\<lambda>c. \<not> isspace c) (xs @ w # g))"
    using at_dollar_short[of "dropWhile (\<lambda>c. \<not> isspace c) (xs @ w # g)"] by linarith
  then show ?thesis by (simp only: match_word_end_def Let_def) simp
qed

lemma search_word_end_token:
  assumes "g \<noteq> []" "\<forall>c\<in>set g. \<not> isspace c"
  shows "pre = [] \<or> isspace (last pre) \<Longrightarrow> search_word_end (pre @ g) = Some g"
proof (induction pre)
  case Nil
  then show ?case using assms match_word_end_token[of g] by (cases g) auto
next
  case (Cons p ps)
  then have sp: "isspace (last (p # ps))" by simp
  obtain xs w where xw: "p # ps = xs @ [w]" by (metis rev_exhaust list.distinct(1))
  with sp have "isspace w" by (metis last_snoc)
  then have "match_word_end ((p # ps) @ g) = None"
    using match_word_end_before_space[of w g xs] assms(1) xw by simp
  moreover have "ps = [] \<or> isspace (last ps)" using sp by (cases ps) auto
  ultimately show ?case using Cons.IH by simp
qed

lemma preceding_word_eq: "preceding_word text start = prev_word text start"
proof -
  let ?b = "rstrip (slice_to text start)"
  show ?thesis
  proof (cases "?b = []")
    case True
    then show ?thesis
      by (simp add: preceding_word_def prev_word_def match_word_end_def last_token_def
          rstrip_chars_def)
  next
    case False
    then have tok: "last_token ?b \<noteq> []"
      using rstrip_last[of "slice_to text start"] last_token_nonempty by blast
    obtain pre where "?b = pre @ last_token ?b" "pre = [] \<or> isspace (last pre)"
      using last_token_decomp by blast
    then have "search_word_end ?b = Some (last_token ?b)"
      using search_word_end_token[OF tok last_token_nonspace] by metis
    then show ?thesis by (simp add: preceding_word_def prev_word_def)
  qed
qed

lemma rfind_from_found:
  "k \<le> n \<Longrightarrow> startswith (drop k s) p \<Longrightarrow>
   \<forall>j. k < j \<and> j \<le> n \<longrightarrow> \<not> startswith (drop j s) p \<Longrightarrow> rfind_from s p n = int k"
proof (induction n)
  case 0
  then show ?case by simp
next
  case (Suc n)
  show ?case
  proof (cases "k = Suc n")
    case True
    with Suc.prems show ?thesis by simp
  next
    case False
    with Suc.prems have "k \<le> n" "\<not> startswith (drop (Suc n) s) p" by auto
    with Suc show ?thesis by simp
  qed
qed

lemma no_later_occurrence:
  assumes "prev \<noteq> []" "last prev \<notin> P" "set pu \<subseteq> P" "length pre < j"
  shows "\<not> startswith (drop j (pre @ prev @ pu)) prev"
proof
  assume st: "startswith (drop j (pre @ prev @ pu)) prev"
  define d where "d = j - length pre"
  have d: "0 < d" "j = length pre + d" using assms(4) by (auto simp: d_def)
  have "drop j (pre @ prev @ pu) = drop d (prev @ pu)" using d(2) by simp
  with st have eq: "take (length prev) (drop d (prev @ pu)) = prev"
    by (simp only: startswith_def)
  have "length (take (length prev) (drop d (prev @ pu))) = length prev"
    by (simp only: eq)
  moreover have "0 < length prev" using assms(1) by simp
  ultimately have len: "d \<le> length pu"
    by (simp only: length_take length_drop length_append min_def split: if_splits)
  let ?i = "length prev - 1"
  have i: "?i < length prev" using assms(1) by simp
  have "prev ! ?i = take (length prev) (drop d (prev @ pu)) ! ?i" by (simp only: eq)
  also have "\<dots> = drop d (prev @ pu) ! ?i" using i by (rule nth_take)
  also have "\<dots> = (prev @ pu) ! (d + ?i)" using len by (intro nth_drop) simp
  also have "\<dots> = pu ! (d + ?i - length prev)"
  proof -
    have "\<not> d + ?i < length prev" using d(1) i by arith
    then show ?thesis by (simp only: nth_append if_False)
  qed
  finally have "prev ! ?i = pu ! (d + ?i - length prev)" .
  moreover have "last prev = prev ! ?i" using assms(1) by (rule last_conv_nth)
  ultimately have "last prev = pu ! (d + ?i - length prev)" by (rule back_subst[where P="\<lambda>x. last prev = x", rotated])
  moreover have "d + ?i - length prev < length pu" using len d(1) i by arith
  ultimately have "last prev \<in> set pu" by (simp only: nth_mem)
  with assms show False by blast
qed

lemma rfind_token:
  assumes "prev \<noteq> []" "last prev \<notin> P" "set pu \<subseteq> P"
  shows "rfind (pre @ prev @ pu) prev = int (length pre)"
proof -
  have a: "startswith (drop (length pre) (pre @ prev @ pu)) prev"
    by (simp add: startswith_def)
  have b: "\<forall>j. length pre < j \<and> j \<le> length pre + length pu
      \<longrightarrow> \<not> startswith (drop j (pre @ prev @ pu)) prev"
    using no_later_occurrence[OF assms] by blast
  have "rfind_from (pre @ prev @ pu) prev (length pre + length pu) = int (length pre)"
    by (rule rfind_from_found[OF _ a b]) simp
  then show ?thesis by (simp add: rfind_def)
qed

lemma lower_eq_Nil_iff: "lower p = [] \<longleftrightarrow> p = []"
  by (cases p) (auto simp: lower_def lower_cp_def)

lemma Nil_notin_TITLES: "[] \<notin> set TITLES"
  by (simp add: TITLES_def ustr_def)

lemma title_nonempty: "lower p \<in> set TITLES \<Longrightarrow> p \<noteq> []"
  using Nil_notin_TITLES lower_eq_Nil_iff by metis

lemma rstrip_chars_decomp:
  "\<exists>pu. w = rstrip_chars cs w @ pu \<and> set pu \<subseteq> set cs"
  unfolding rstrip_chars_def using rev_dropWhile_decomp[of w "\<lambda>c. c \<in> set cs"] by blast

lemma rstrip_chars_last:
  "rstrip_chars cs w \<noteq> [] \<Longrightarrow> last (rstrip_chars cs w) \<notin> set cs"
  unfolding rstrip_chars_def using rev_dropWhile_last[of "\<lambda>c. c \<in> set cs" w] by blast

lemma prefix_shape:
  assumes "prev_word text start \<noteq> []"
  shows "\<exists>pre pu. rstrip (slice_to text start) = pre @ prev_word text start @ pu
           \<and> length pre = token_start text start
           \<and> set pu \<subseteq> set (ustr ''.,;:'')
           \<and> last (prev_word text start) \<notin> set (ustr ''.,;:'')"
proof -
  let ?b = "rstrip (slice_to text start)"
  obtain pre where pre: "?b = pre @ last_token ?b"
    using last_token_decomp by blast
  obtain pu where pu: "last_token ?b = prev_word text start @ pu" "set pu \<subseteq> set (ustr ''.,;:'')"
    unfolding prev_word_def using rstrip_chars_decomp by blast
  have "length ?b = length pre + length (last_token ?b)"
    using pre by (metis length_append)
  then have "length pre = token_start text start"
    by (simp add: token_start_def Let_def)
  moreover have "?b = pre @ prev_word text start @ pu" using pre pu(1) by simp
  moreover have "last (prev_word text start) \<notin> set (ustr ''.,;:'')"
    using assms unfolding prev_word_def by (rule rstrip_chars_last)
  ultimately show ?thesis using pu(2) by blast
qed

lemma rfind_title:
  assumes "lower (prev_word text start) \<in> set TITLES"
  shows "rfind (rstrip (slice_to text start)) (prev_word text start)
         = int (token_start text start)"
proof -
  have ne: "prev_word text start \<noteq> []" using assms by (rule title_nonempty)
  obtain pre pu where sh: "rstrip (slice_to text start) = pre @ prev_word text start @ pu"
      "length pre = token_start text start" "set pu \<subseteq> set (ustr ''.,;:'')"
      "last (prev_word text start) \<notin> set (ustr ''.,;:'')"
    using prefix_shape[OF ne] by blast
  have "rfind (pre @ prev_word text start @ pu) (prev_word text start) = int (length pre)"
    using ne sh(4) sh(3) by (rule rfind_token)
  then show ?thesis using sh(1,2) by simp
qed

lemma expand_with_title_title:
  "lower (prev_word text start) \<in> set TITLES \<Longrightarrow>
   expand_with_title text start = int (token_start text start)"
  using rfind_title[of "text" start] by (simp add: expand_with_title_def preceding_word_eq)

lemma expand_with_title_other:
  "lower (prev_word text start) \<notin> set TITLES \<Longrightarrow> expand_with_title text start = start"
  by (simp add: expand_with_title_def preceding_word_eq)

lemma token_start_le: "0 \<le> start \<Longrightarrow> int (token_start text start) \<le> start"
proof -
  assume "0 \<le> start"
  have "token_start text start \<le> length (rstrip (slice_to text start))"
    by (simp add: token_start_def Let_def)
  also have "\<dots> \<le> length (slice_to text start)" by (rule length_rstrip_le)
  also have "\<dots> \<le> nat start" using \<open>0 \<le> start\<close> by (simp add: slice_to_def clamp_index_def)
  finally show ?thesis using \<open>0 \<le> start\<close> by simp
qed

lemma expand_with_title_bounds:
  "0 \<le> start \<Longrightarrow> 0 \<le> expand_with_title text start \<and> expand_with_title text start \<le> start"
  using expand_with_title_title[of "text" start] expand_with_title_other[of "text" start]
    token_start_le[of start "text"]
  by (cases "lower (prev_word text start) \<in> set TITLES") auto

section \<open>The possessive pattern\<close>

lemma match_possessive_Some_iff:
  "match_possessive s = Some r \<longleftrightarrow> (\<exists>m\<in>set markers. s = m @ r \<and> at_dollar r)"
  by (cases s rule: match_possessive.cases) (auto simp: markers_def)

lemma sub_possessive_at_dollar: "at_dollar r \<Longrightarrow> sub_possessive r = r"
  by (auto simp: at_dollar_def)

lemma match_possessive_inner:
  assumes "m \<in> set markers" "at_dollar r"
  shows "match_possessive (x # xs @ m @ r) = None"
proof (cases "match_possessive (x # xs @ m @ r)")
  case None
  then show ?thesis .
next
  case (Some r')
  then obtain m' where m': "m' \<in> set markers" "x # xs @ m @ r = m' @ r'" "at_dollar r'"
    using match_possessive_Some_iff by blast
  have "length m = 2" "length m' = 2" using assms(1) m'(1) by (auto simp: markers_def)
  moreover have "length (x # xs @ m @ r) = length (m' @ r')" using m'(2) by simp
  ultimately have L: "Suc (length xs + length r) = length r'" by simp
  have R: "length r' \<le> 1" using m'(3) by (rule at_dollar_short)
  have "length xs + length r = 0" using L R by arith
  then have "xs = []" "r = []" by simp_all
  have "length r' = 1" using L R by arith
  have "x # m = m' @ r'" using m'(2) \<open>xs = []\<close> \<open>r = []\<close> by simp
  then have False using assms(1) m'(1) \<open>length r' = 1\<close>
    by (cases r') (auto simp: markers_def)
  then show ?thesis ..
qed

lemma sub_possessive_marker:
  assumes "m \<in> set markers" "at_dollar r"
  shows "sub_possessive (xs @ m @ r) = xs @ r"
proof (induction xs)
  case Nil
  have "match_possessive (m @ r) = Some r"
    using assms match_possessive_Some_iff by blast
  moreover obtain c cs where "m @ r = c # cs" using assms(1) by (auto simp: markers_def)
  ultimately show ?case using sub_possessive_at_dollar[OF assms(2)] by simp
next
  case (Cons x xs)
  then show ?case using match_possessive_inner[OF assms, of x xs] by simp
qed

lemma search_possessive_marker:
  assumes "m \<in> set markers" "at_dollar r"
  shows "search_possessive (xs @ m @ r)"
proof (induction xs)
  case Nil
  have "match_possessive (m @ r) = Some r"
    using assms match_possessive_Some_iff by blast
  moreover obtain c cs where "m @ r = c # cs" using assms(1) by (auto simp: markers_def)
  ultimately show ?case by simp
next
  case (Cons x xs)
  then show ?case using match_possessive_inner[OF assms, of x xs] by simp
qed

lemma search_possessive_shape:
  "search_possessive s \<Longrightarrow> \<exists>xs m r. m \<in> set markers \<and> at_dollar r \<and> s = xs @ m @ r"
proof (induction s)
  case Nil
  then show ?case by simp
next
  case (Cons c cs)
  show ?case
  proof (cases "match_possessive (c # cs)")
    case None
    with Cons obtain xs m r where "m \<in> set markers" "at_dollar r" "cs = xs @ m @ r" by auto
    then have "c # cs = (c # xs) @ m @ r" by simp
    with \<open>m \<in> set markers\<close> \<open>at_dollar r\<close> show ?thesis by blast
  next
    case (Some r)
    then obtain m where "m \<in> set markers" "c # cs = [] @ m @ r" "at_dollar r"
      using match_possessive_Some_iff by auto
    then show ?thesis by blast
  qed
qed

lemma sub_possessive_unmarked: "\<not> search_possessive s \<Longrightarrow> sub_possessive s = s"
  by (induction s) (auto split: option.splits)

lemma sub_possessive_cases:
  "sub_possessive s = s
   \<or> (\<exists>xs m r. m \<in> set markers \<and> at_dollar r \<and> s = xs @ m @ r \<and> sub_possessive s = xs @ r)"
proof (cases "search_possessive s")
  case True
  then obtain xs m r where "m \<in> set markers" "at_dollar r" "s = xs @ m @ r"
    using search_possessive_shape by blast
  then show ?thesis using sub_possessive_marker by blast
next
  case False
  then show ?thesis by (simp add: sub_possessive_unmarked)
qed

lemma endswith_iff: "endswith s suf \<longleftrightarrow> (\<exists>xs. s = xs @ suf)"
proof
  assume "endswith s suf"
  then have "s = take (length s - length suf) s @ suf"
    by (metis append_take_drop_id endswith_def)
  then show "\<exists>xs. s = xs @ suf" ..
next
  assume "\<exists>xs. s = xs @ suf"
  then show "endswith s suf" by (auto simp: endswith_def)
qed

lemma search_possessive_iff:
  "search_possessive s \<longleftrightarrow>
   ends_possessive s \<or> (\<exists>m\<in>set markers. endswith s (m @ [10]))"
proof
  assume "search_possessive s"
  then obtain xs m r where *: "m \<in> set markers" "at_dollar r" "s = xs @ m @ r"
    using search_possessive_shape by blast
  then show "ends_possessive s \<or> (\<exists>m\<in>set markers. endswith s (m @ [10]))"
    unfolding ends_possessive_def endswith_iff at_dollar_def by auto
next
  assume "ends_possessive s \<or> (\<exists>m\<in>set markers. endswith s (m @ [10]))"
  then obtain xs m r where "m \<in> set markers" "at_dollar r" "s = xs @ m @ r"
    unfolding ends_possessive_def endswith_iff at_dollar_def by (metis append_Nil2)
  then show "search_possessive s" using search_possessive_marker by blast
qed


section \<open>The loop of the handler groups the occurrences by name\<close>

lemma handle_entity_candidate:
  "handle_entity text d ent
   = (case candidate text ent of None \<Rightarrow> d | Some x \<Rightarrow> add_occurrence d x)"
  by (simp add: handle_entity_def candidate_def add_occurrence_def extracted_text_def
      occurrence_of_def Let_def)

lemma foldl_handle_entity:
  "foldl (handle_entity text) d ents = foldl add_occurrence d (occurrences text ents)"
proof (induction ents arbitrary: d)
  case Nil
  then show ?case by (simp add: occurrences_def)
next
  case (Cons e ents)
  then show ?case
    by (cases "candidate text e")
      (simp_all add: occurrences_def handle_entity_candidate)
qed

lemma set_first_seen: "set (first_seen xs) = set xs"
  by (induction xs) auto

lemma distinct_first_seen: "distinct (first_seen xs)"
  by (induction xs) (auto simp: distinct_removeAll)

lemma first_seen_snoc:
  "first_seen (xs @ [x]) = (if x \<in> set xs then first_seen xs else first_seen xs @ [x])"
proof (induction xs)
  case Nil
  then show ?case by simp
next
  case (Cons a xs)
  then show ?case by (auto simp: set_first_seen)
qed

lemma setitem_new: "k \<notin> fst ` set d \<Longrightarrow> setitem d k v = d @ [(k, v)]"
  by (induction d) auto

lemma append_position_snoc:
  "k \<notin> fst ` set d \<Longrightarrow>
   append_position (d @ [(k, r)]) k p = d @ [(k, r\<lparr>positions := positions r @ [p]\<rparr>)]"
  by (induction d) auto

lemma append_position_map:
  "distinct ks \<Longrightarrow>
   append_position (map (\<lambda>m. (m, G m)) ks) n p
   = map (\<lambda>m. (m, if m = n then (G m)\<lparr>positions := positions (G m) @ [p]\<rparr> else G m)) ks"
proof (induction ks)
  case Nil
  then show ?case by simp
next
  case (Cons a ks)
  show ?case
  proof (cases "a = n")
    case True
    with Cons.prems have "n \<notin> set ks" by simp
    then have "map (\<lambda>m. (m, if m = n then (G m)\<lparr>positions := positions (G m) @ [p]\<rparr> else G m)) ks
               = map (\<lambda>m. (m, G m)) ks"
      by (intro map_cong) auto
    with True show ?thesis by simp
  next
    case False
    with Cons show ?thesis by simp
  qed
qed

lemma keys_group_dict: "map fst (group_dict occs) = first_seen (map fst occs)"
  by (simp add: group_dict_def comp_def)

lemma add_occurrence_group:
  "add_occurrence (group_dict occs) (n, p) = group_dict (occs @ [(n, p)])"
proof (cases "n \<in> set (map fst occs)")
  case True
  then have c: "contains (group_dict occs) n"
    by (simp add: contains_def keys_group_dict set_first_seen)
  have "append_position (group_dict occs) n p
        = map (\<lambda>m. (m, if m = n
                 then \<lparr>name = m, positions = positions_of m occs\<rparr>
                        \<lparr>positions := positions \<lparr>name = m, positions = positions_of m occs\<rparr> @ [p]\<rparr>
                 else \<lparr>name = m, positions = positions_of m occs\<rparr>))
            (first_seen (map fst occs))"
    unfolding group_dict_def by (rule append_position_map[OF distinct_first_seen])
  also have "\<dots> = group_dict (occs @ [(n, p)])"
    using True unfolding group_dict_def
    by (auto simp: first_seen_snoc positions_of_def)
  finally show ?thesis using c by (simp add: add_occurrence_def)
next
  case False
  then have c: "\<not> contains (group_dict occs) n"
    by (simp add: contains_def keys_group_dict set_first_seen)
  have k: "n \<notin> fst ` set (group_dict occs)"
    using c by (simp add: contains_def)
  have "add_occurrence (group_dict occs) (n, p)
        = group_dict occs @ [(n, \<lparr>name = n, positions = [p]\<rparr>)]"
    using c by (simp add: add_occurrence_def setitem_new[OF k] append_position_snoc[OF k])
  also have "\<dots> = group_dict (occs @ [(n, p)])"
  proof -
    have "positions_of m (occs @ [(n, p)]) = positions_of m occs" if "m \<in> set (map fst occs)" for m
      using that False by (auto simp: positions_of_def)
    moreover have "positions_of n occs = []"
      using False by (auto simp: positions_of_def filter_empty_conv)
    ultimately show ?thesis
      using False by (simp add: group_dict_def first_seen_snoc set_first_seen positions_of_def
          cong: map_cong)
  qed
  finally show ?thesis .
qed

lemma foldl_add_occurrence: "foldl add_occurrence [] occs = group_dict occs"
proof (induction occs rule: rev_induct)
  case Nil
  then show ?case by (simp add: group_dict_def)
next
  case (snoc x occs)
  then show ?case using add_occurrence_group[of occs "fst x" "snd x"] by simp
qed

lemma extract_names_records:
  "fst (extract_names nlp text s)
   = map (\<lambda>n. \<lparr>name = n, positions = positions_of n (occurrences text (recognized nlp text s))\<rparr>)
       (first_seen (map fst (occurrences text (recognized nlp text s))))"
proof (cases "strip text = []")
  case True
  then show ?thesis
    by (simp add: extract_names_def recognized_def occurrences_def)
next
  case False
  then show ?thesis
    by (simp add: extract_names_def recognized_def foldl_handle_entity foldl_add_occurrence
        dict_values_def group_dict_def comp_def split: prod.splits)
qed

lemma in_occurrences:
  "x \<in> set (occurrences text ents) \<longleftrightarrow> (\<exists>e\<in>set ents. candidate text e = Some x)"
  unfolding occurrences_def by (induction ents) (auto split: option.splits)

lemma candidate_Some:
  "candidate text e = Some x \<Longrightarrow>
   is_likely_person e text \<and> fst x = strip_possessive (extracted_text text e)
   \<and> fst x \<noteq> [] \<and> snd x = occurrence_of text e"
  by (auto simp: candidate_def split: if_splits)

lemma set_recognized: "set (recognized nlp text s) \<subseteq> set (fst (nlp text s))"
  by (simp add: recognized_def)

lemma record_position_origin:
  assumes "r \<in> set (fst (extract_names nlp text s))" "p \<in> set (positions r)"
  shows "\<exists>e\<in>set (fst (nlp text s)). is_likely_person e text \<and> p = occurrence_of text e
           \<and> name r = strip_possessive (extracted_text text e)"
proof -
  let ?occs = "occurrences text (recognized nlp text s)"
  from assms(1) obtain n where n: "r = \<lparr>name = n, positions = positions_of n ?occs\<rparr>"
    unfolding extract_names_records by auto
  with assms(2) have "(n, p) \<in> set ?occs" by (auto simp: positions_of_def)
  then obtain e where e: "e \<in> set (recognized nlp text s)" "candidate text e = Some (n, p)"
    using in_occurrences by blast
  from candidate_Some[OF e(2)] n e(1) set_recognized[of nlp "text" s] show ?thesis by auto
qed

lemma record_name_nonempty:
  assumes "r \<in> set (fst (extract_names nlp text s))"
  shows "name r \<noteq> []"
proof -
  let ?occs = "occurrences text (recognized nlp text s)"
  from assms obtain n where r: "r = \<lparr>name = n, positions = positions_of n ?occs\<rparr>"
      and n: "n \<in> set (first_seen (map fst ?occs))"
    unfolding extract_names_records by auto
  from n obtain x where x: "x \<in> set ?occs" "fst x = n" by (auto simp: set_first_seen)
  then obtain e where "candidate text e = Some x" using in_occurrences by blast
  then have "fst x \<noteq> []" using candidate_Some by blast
  with x(2) r show ?thesis by simp
qed


lemma set_strip_subset: "set (strip s) \<subseteq> set s"
  unfolding strip_def using set_dropWhileD[of _ isspace "rstrip s"] set_rstrip_subset[of s]
  by auto




section \<open>The claims\<close>

text \<open>
  C6. For a text that is empty or all whitespace the handler returns no records, and
  the recognizer is not called: its state comes back as it went in, whatever the
  recognizer is.
\<close>

theorem blank_text_skips_recognizer:
  "\<forall>c\<in>set text. isspace c \<Longrightarrow> extract_names nlp text s = ([], s)"
  by (simp add: extract_names_def strip_eq_Nil_iff)

text \<open>A recognizer that counts its calls: the count stays at zero.\<close>

theorem blank_text_skips_recognizer_witness:
  "isspace 32 \<and> isspace 10 \<and> isspace 9
   \<and> extract_names
        (\<lambda>t n. ([\<lparr>ent_text = t, label = ustr ''PERSON'', start_char = 0, end_char = 3\<rparr>], Suc n))
        [32, 10, 9] (0::nat) = ([], 0)"
  using blank_text_skips_recognizer
    [of "[32, 10, 9]"
        "\<lambda>t n. ([\<lparr>ent_text = t, label = ustr ''PERSON'', start_char = 0, end_char = 3\<rparr>], Suc n)"
        "0::nat"]
  by (simp add: isspace_def)

text \<open>
  C2. When the word before \<open>start\<close> is a title, \<open>expand_with_title\<close> returns the index at
  which the adjacent token starts; the word occurs there in the trimmed prefix and
  nowhere further right. Otherwise it returns \<open>start\<close>. The word the program computes is
  the word the specification describes.
\<close>

theorem expand_with_title_adjacent_token:
  "preceding_word text start = prev_word text start
   \<and> (lower (prev_word text start) \<in> set TITLES \<longrightarrow>
        expand_with_title text start = int (token_start text start)
        \<and> startswith (drop (token_start text start) (rstrip (slice_to text start)))
             (prev_word text start)
        \<and> (\<forall>j. startswith (drop j (rstrip (slice_to text start))) (prev_word text start)
               \<longrightarrow> j \<le> token_start text start))
   \<and> (lower (prev_word text start) \<notin> set TITLES \<longrightarrow> expand_with_title text start = start)"
proof (intro conjI impI)
  show "preceding_word text start = prev_word text start" by (rule preceding_word_eq)
next
  assume "lower (prev_word text start) \<in> set TITLES"
  then show "expand_with_title text start = int (token_start text start)"
    by (rule expand_with_title_title)
next
  assume "lower (prev_word text start) \<notin> set TITLES"
  then show "expand_with_title text start = start" by (rule expand_with_title_other)
next
  assume t: "lower (prev_word text start) \<in> set TITLES"
  then have ne: "prev_word text start \<noteq> []" by (rule title_nonempty)
  obtain pre pu where sh: "rstrip (slice_to text start) = pre @ prev_word text start @ pu"
      "length pre = token_start text start" "set pu \<subseteq> set (ustr ''.,;:'')"
      "last (prev_word text start) \<notin> set (ustr ''.,;:'')"
    using prefix_shape[OF ne] by blast
  show "startswith (drop (token_start text start) (rstrip (slice_to text start)))
          (prev_word text start)"
    using sh(1,2) by (simp add: startswith_def)
  show "\<forall>j. startswith (drop j (rstrip (slice_to text start))) (prev_word text start)
          \<longrightarrow> j \<le> token_start text start"
    using no_later_occurrence[OF ne sh(4) sh(3), of pre] sh(1,2)
    by (metis not_le_imp_less)
qed

text \<open>In \<open>Dr Dr. No\<close> the title before offset 7 is the second \<open>Dr\<close>, at index 3.\<close>

theorem expand_with_title_adjacent_token_witness:
  "lower (prev_word (ustr ''Dr Dr. No'') 7) \<in> set TITLES
   \<and> expand_with_title (ustr ''Dr Dr. No'') 7 = 3
   \<and> lower (prev_word (ustr ''a cat'') 2) \<notin> set TITLES
   \<and> expand_with_title (ustr ''a cat'') 2 = 2"
proof -
  have a: "lower (prev_word (ustr ''Dr Dr. No'') 7) \<in> set TITLES" by code_simp
  have b: "token_start (ustr ''Dr Dr. No'') 7 = 3" by code_simp
  have c: "lower (prev_word (ustr ''a cat'') 2) \<notin> set TITLES" by code_simp
  show ?thesis
    using expand_with_title_adjacent_token[of "ustr ''Dr Dr. No''" 7]
      expand_with_title_adjacent_token[of "ustr ''a cat''" 2] a b c
    by simp
qed

text \<open>
  C8. For an offset inside the text, \<open>expand_with_title\<close> returns a value between 0 and
  the offset; when the word before the offset is a title, \<open>rfind\<close> finds it, so its
  failure value \<open>-1\<close> is not returned.
\<close>

theorem expand_with_title_in_range:
  "0 \<le> start \<Longrightarrow> start \<le> int (length text) \<Longrightarrow>
   0 \<le> expand_with_title text start \<and> expand_with_title text start \<le> start
   \<and> (lower (preceding_word text start) \<in> set TITLES \<longrightarrow>
        rfind (rstrip (slice_to text start)) (preceding_word text start) \<noteq> - 1)"
  using expand_with_title_bounds[of start "text"] rfind_title[of "text" start]
  by (simp add: preceding_word_eq)

theorem expand_with_title_in_range_witness:
  "(0::int) \<le> 7 \<and> 7 \<le> int (length (ustr ''Dr Dr. No''))
   \<and> lower (preceding_word (ustr ''Dr Dr. No'') 7) \<in> set TITLES
   \<and> 0 \<le> expand_with_title (ustr ''Dr Dr. No'') 7
   \<and> expand_with_title (ustr ''Dr Dr. No'') 7 \<le> 7
   \<and> rfind (rstrip (slice_to (ustr ''Dr Dr. No'') 7)) (preceding_word (ustr ''Dr Dr. No'') 7) \<noteq> - 1"
proof -
  have a: "lower (preceding_word (ustr ''Dr Dr. No'') 7) \<in> set TITLES" by code_simp
  have b: "7 \<le> int (length (ustr ''Dr Dr. No''))" by (simp add: ustr_def)
  show ?thesis
    using expand_with_title_in_range[of 7 "ustr ''Dr Dr. No''"] a b by simp
qed

text \<open>
  C7. With a recognizer whose entities for the text do not depend on its state, a
  second run of the handler on the same text, started in the state the first run left,
  returns the same records in the same order.
\<close>

theorem extract_names_twice_same:
  "\<forall>s s'. fst (nlp text s) = fst (nlp text s') \<Longrightarrow>
   fst (extract_names nlp text (snd (extract_names nlp text s)))
   = fst (extract_names nlp text s)"
proof (cases "strip text = []")
  case True
  then show ?thesis by (simp add: extract_names_def)
next
  case False
  assume det: "\<forall>s s'. fst (nlp text s) = fst (nlp text s')"
  have "fst (extract_names nlp text t)
        = dict_values (foldl (handle_entity text) [] (fst (nlp text t)))" for t
    using False by (simp add: extract_names_def split: prod.splits)
  with det show ?thesis by metis
qed

theorem extract_names_twice_same_witness:
  "(\<forall>s s'. fst ((\<lambda>t n. ([\<lparr>ent_text = t, label = ustr ''PERSON'', start_char = 0, end_char = 2\<rparr>], Suc n))
                  (ustr ''Al'') s)
           = fst ((\<lambda>t n. ([\<lparr>ent_text = t, label = ustr ''PERSON'', start_char = 0, end_char = 2\<rparr>], Suc n))
                  (ustr ''Al'') s'))
   \<and> fst (extract_names
            (\<lambda>t n. ([\<lparr>ent_text = t, label = ustr ''PERSON'', start_char = 0, end_char = 2\<rparr>], Suc n))
            (ustr ''Al'')
            (snd (extract_names
                    (\<lambda>t n. ([\<lparr>ent_text = t, label = ustr ''PERSON'', start_char = 0, end_char = 2\<rparr>], Suc n))
                    (ustr ''Al'') (0::nat))))
     = fst (extract_names
              (\<lambda>t n. ([\<lparr>ent_text = t, label = ustr ''PERSON'', start_char = 0, end_char = 2\<rparr>], Suc n))
              (ustr ''Al'') 0)"
  using extract_names_twice_same
    [of "\<lambda>t n. ([\<lparr>ent_text = t, label = ustr ''PERSON'', start_char = 0, end_char = 2\<rparr>], Suc n)"
        "ustr ''Al''" "0::nat"]
  by simp

text \<open>
  C9. One application of the possessive clean-up removes at most one marker: the
  substitution leaves the string as it is or removes one marker that stands at \<open>$\<close>.
  It is not idempotent: a name that ends in two markers loses one at each application.
\<close>

theorem strip_possessive_not_idempotent:
  "(sub_possessive s = s
    \<or> (\<exists>xs m r. m \<in> set markers \<and> at_dollar r \<and> s = xs @ m @ r \<and> sub_possessive s = xs @ r))
   \<and> strip_possessive [66, 111, 98, 8217, 115, 8217, 115] = [66, 111, 98, 8217, 115]
   \<and> strip_possessive (strip_possessive [66, 111, 98, 8217, 115, 8217, 115]) = [66, 111, 98]"
proof -
  have "strip_possessive [66, 111, 98, 8217, 115, 8217, 115] = [66, 111, 98, 8217, 115]"
    by code_simp
  moreover have "strip_possessive [66, 111, 98, 8217, 115] = [66, 111, 98]"
    by code_simp
  ultimately show ?thesis using sub_possessive_cases[of s] by simp
qed

theorem strip_possessive_not_idempotent_witness:
  "sub_possessive [65, 39, 115, 10] = [65, 10]
   \<and> strip_possessive (strip_possessive [66, 111, 98, 8217, 115, 8217, 115])
       \<noteq> strip_possessive [66, 111, 98, 8217, 115, 8217, 115]"
proof -
  have a: "sub_possessive [65, 39, 115, 10] = [65, 10]" by code_simp
  have b: "strip_possessive [66, 111, 98, 8217, 115, 8217, 115] = [66, 111, 98, 8217, 115]"
    and c: "strip_possessive (strip_possessive [66, 111, 98, 8217, 115, 8217, 115]) = [66, 111, 98]"
    using strip_possessive_not_idempotent[of "[65, 39, 115, 10]"] by blast+
  have d: "strip_possessive (strip_possessive [66, 111, 98, 8217, 115, 8217, 115])
           \<noteq> strip_possessive [66, 111, 98, 8217, 115, 8217, 115]"
    apply (simp only: c)
    apply (simp only: b)
    by simp
  show ?thesis using a d by blast
qed

lemma has_possessive_iff:
  "has_possessive etext text end
   = (ends_possessive_line etext \<or> starts_possessive (slice_from text end))"
  by (auto simp: has_possessive_def search_possessive_iff ends_possessive_line_def
      starts_possessive_def markers_def Let_def)

text \<open>
  C1, as stated, fails: for the entity \<open>Bo's\<close> followed by a line feed, labelled PRODUCT,
  in a text where no title precedes it and no marker follows it, the classifier answers
  true, although the entity text does not end with a marker.
\<close>

theorem is_person_counterexample:
  "is_likely_person
     \<lparr>ent_text = [66, 111, 39, 115, 10], label = ustr ''PRODUCT'', start_char = 2, end_char = 7\<rparr>
     [120, 32, 66, 111, 39, 115, 10, 102, 111, 111]
   \<and> \<not> is_person
     \<lparr>ent_text = [66, 111, 39, 115, 10], label = ustr ''PRODUCT'', start_char = 2, end_char = 7\<rparr>
     [120, 32, 66, 111, 39, 115, 10, 102, 111, 111]"
  by code_simp

text \<open>
  C1, amended. The classifier answers true exactly when the label is PERSON; or the
  entity text is not blank and either the word before the entity's start is a title, or
  the label is none of ORG, GPE, FAC, NORP, EVENT and the entity text ends with a marker
  (possibly followed by one final line feed) or a marker follows the entity's end.
\<close>

theorem is_likely_person_characterised:
  "is_likely_person ent text =
     (label ent = ustr ''PERSON''
      \<or> (strip (ent_text ent) \<noteq> []
          \<and> (lower (prev_word text (start_char ent)) \<in> set TITLES
              \<or> ((ends_possessive_line (ent_text ent)
                   \<or> starts_possessive (slice_from text (end_char ent)))
                  \<and> label ent \<notin> set non_person_labels))))"
proof -
  have title: "lower (preceding_word text (start_char ent)) \<in> set TITLES
      \<longleftrightarrow> lower (prev_word text (start_char ent)) \<in> set TITLES"
    by (simp only: preceding_word_eq)
  have poss: "has_possessive (ent_text ent) text (end_char ent)
      \<longleftrightarrow> ends_possessive_line (ent_text ent)
          \<or> starts_possessive (slice_from text (end_char ent))"
    by (rule has_possessive_iff)
  show ?thesis
    unfolding is_likely_person_def Let_def title poss non_person_labels_def
    by (simp only: if_bool_eq_disj) blast
qed

theorem is_likely_person_characterised_witness:
  "is_likely_person
     \<lparr>ent_text = ustr ''Philip'', label = ustr ''GPE'', start_char = 7, end_char = 13\<rparr>
     (ustr ''Prince Philip died.'')
   \<and> \<not> is_likely_person
     \<lparr>ent_text = ustr ''Acme'', label = ustr ''ORG'', start_char = 4, end_char = 8\<rparr>
     (ustr ''The Acme plant'')"
proof -
  have a: "lower (prev_word (ustr ''Prince Philip died.'') 7) \<in> set TITLES" by code_simp
  have b: "strip (ustr ''Philip'') \<noteq> []" by code_simp
  have c: "lower (prev_word (ustr ''The Acme plant'') 4) \<notin> set TITLES" by code_simp
  have d: "ustr ''ORG'' \<in> set non_person_labels" by code_simp
  have e: "ustr ''ORG'' \<noteq> ustr ''PERSON''" by code_simp
  show ?thesis
    using a b c d e
      is_likely_person_characterised
        [of "\<lparr>ent_text = ustr ''Philip'', label = ustr ''GPE'', start_char = 7, end_char = 13\<rparr>"
            "ustr ''Prince Philip died.''"]
      is_likely_person_characterised
        [of "\<lparr>ent_text = ustr ''Acme'', label = ustr ''ORG'', start_char = 4, end_char = 8\<rparr>"
            "ustr ''The Acme plant''"]
    by simp
qed

text \<open>
  C3. The records have pairwise distinct names; the names are, in first-seen order,
  the names of the occurrences that the recognizer's entities contribute; and the
  positions of a record are the occurrences of its name, in the order of the entities.
\<close>

theorem records_grouped_in_first_seen_order:
  "distinct (map name (fst (extract_names nlp text s)))
   \<and> map name (fst (extract_names nlp text s))
       = first_seen (map fst (occurrences text (recognized nlp text s)))
   \<and> (\<forall>r\<in>set (fst (extract_names nlp text s)).
         positions r = positions_of (name r) (occurrences text (recognized nlp text s)))"
proof -
  have "map name (fst (extract_names nlp text s))
        = first_seen (map fst (occurrences text (recognized nlp text s)))"
    unfolding extract_names_records by (simp add: comp_def)
  moreover have "\<forall>r\<in>set (fst (extract_names nlp text s)).
      positions r = positions_of (name r) (occurrences text (recognized nlp text s))"
    unfolding extract_names_records by auto
  ultimately show ?thesis by (simp add: distinct_first_seen)
qed

text \<open>\<open>Al, Bo, Al\<close> with the three names as entities: two records, \<open>Al\<close> with two positions.\<close>

theorem records_grouped_in_first_seen_order_witness:
  "fst (extract_names
          (counting_nlp [person (ustr ''Al'') 0 2, person (ustr ''Bo'') 4 6, person (ustr ''Al'') 8 10])
          (ustr ''Al, Bo, Al'') 0)
   = [\<lparr>name = ustr ''Al'', positions = [\<lparr>start_pos = 0, end_pos = 2\<rparr>, \<lparr>start_pos = 8, end_pos = 10\<rparr>]\<rparr>,
      \<lparr>name = ustr ''Bo'', positions = [\<lparr>start_pos = 4, end_pos = 6\<rparr>]\<rparr>]
   \<and> distinct (map name (fst (extract_names
          (counting_nlp [person (ustr ''Al'') 0 2, person (ustr ''Bo'') 4 6, person (ustr ''Al'') 8 10])
          (ustr ''Al, Bo, Al'') 0)))
   \<and> first_seen (map fst (occurrences (ustr ''Al, Bo, Al'')
          (recognized
             (counting_nlp [person (ustr ''Al'') 0 2, person (ustr ''Bo'') 4 6, person (ustr ''Al'') 8 10])
             (ustr ''Al, Bo, Al'') 0)))
       = [ustr ''Al'', ustr ''Bo'']"
proof -
  have a: "fst (extract_names
          (counting_nlp [person (ustr ''Al'') 0 2, person (ustr ''Bo'') 4 6, person (ustr ''Al'') 8 10])
          (ustr ''Al, Bo, Al'') 0)
   = [\<lparr>name = ustr ''Al'', positions = [\<lparr>start_pos = 0, end_pos = 2\<rparr>, \<lparr>start_pos = 8, end_pos = 10\<rparr>]\<rparr>,
      \<lparr>name = ustr ''Bo'', positions = [\<lparr>start_pos = 4, end_pos = 6\<rparr>]\<rparr>]"
    by code_simp
  note b = records_grouped_in_first_seen_order
    [of "counting_nlp [person (ustr ''Al'') 0 2, person (ustr ''Bo'') 4 6, person (ustr ''Al'') 8 10]"
        "ustr ''Al, Bo, Al''" 0]
  from b have c: "distinct (map name (fst (extract_names
          (counting_nlp [person (ustr ''Al'') 0 2, person (ustr ''Bo'') 4 6, person (ustr ''Al'') 8 10])
          (ustr ''Al, Bo, Al'') 0)))" by blast
  from b have "first_seen (map fst (occurrences (ustr ''Al, Bo, Al'')
          (recognized
             (counting_nlp [person (ustr ''Al'') 0 2, person (ustr ''Bo'') 4 6, person (ustr ''Al'') 8 10])
             (ustr ''Al, Bo, Al'') 0)))
       = map name (fst (extract_names
          (counting_nlp [person (ustr ''Al'') 0 2, person (ustr ''Bo'') 4 6, person (ustr ''Al'') 8 10])
          (ustr ''Al, Bo, Al'') 0))" by simp
  then have d: "first_seen (map fst (occurrences (ustr ''Al, Bo, Al'')
          (recognized
             (counting_nlp [person (ustr ''Al'') 0 2, person (ustr ''Bo'') 4 6, person (ustr ''Al'') 8 10])
             (ustr ''Al, Bo, Al'') 0)))
       = [ustr ''Al'', ustr ''Bo'']" by (simp only: a) simp
  show ?thesis using a c d by blast
qed

text \<open>
  C4. When every entity of the recognizer lies inside the text, with its start before
  its end, every recorded position does too; its end is the end of an entity that the
  classifier accepted, and its start is that entity's start after title expansion.
\<close>

theorem positions_in_range:
  "\<forall>e\<in>set (fst (nlp text s)).
      0 \<le> start_char e \<and> start_char e < end_char e \<and> end_char e \<le> int (length text) \<Longrightarrow>
   r \<in> set (fst (extract_names nlp text s)) \<Longrightarrow> p \<in> set (positions r) \<Longrightarrow>
   0 \<le> start_pos p \<and> start_pos p < end_pos p \<and> end_pos p \<le> int (length text)
   \<and> (\<exists>e\<in>set (fst (nlp text s)). is_likely_person e text \<and> end_pos p = end_char e
         \<and> start_pos p = expand_with_title text (start_char e))"
proof -
  assume inside: "\<forall>e\<in>set (fst (nlp text s)).
      0 \<le> start_char e \<and> start_char e < end_char e \<and> end_char e \<le> int (length text)"
    and r: "r \<in> set (fst (extract_names nlp text s))" and p: "p \<in> set (positions r)"
  obtain e where e: "e \<in> set (fst (nlp text s))" "is_likely_person e text"
      "p = occurrence_of text e"
    using record_position_origin[OF r p] by blast
  have b: "0 \<le> start_char e" "start_char e < end_char e" "end_char e \<le> int (length text)"
    using inside e(1) by auto
  have x: "0 \<le> expand_with_title text (start_char e)"
      "expand_with_title text (start_char e) \<le> start_char e"
    using expand_with_title_bounds[OF b(1), of "text"] by auto
  have sp: "start_pos p = expand_with_title text (start_char e)" "end_pos p = end_char e"
    using e(3) by (simp_all add: occurrence_of_def)
  show ?thesis using sp x b e(1,2) by auto
qed

text \<open>In \<open>Dr No\<close> the entity \<open>No\<close> at 3..5 is recorded at 0..5.\<close>

theorem positions_in_range_witness:
  "fst (extract_names (counting_nlp [person (ustr ''No'') 3 5]) (ustr ''Dr No'') 0)
   = [\<lparr>name = ustr ''Dr No'', positions = [\<lparr>start_pos = 0, end_pos = 5\<rparr>]\<rparr>]
   \<and> 0 \<le> start_pos \<lparr>start_pos = 0, end_pos = 5\<rparr>
   \<and> start_pos \<lparr>start_pos = 0, end_pos = 5\<rparr> < end_pos \<lparr>start_pos = 0, end_pos = 5\<rparr>
   \<and> end_pos \<lparr>start_pos = 0, end_pos = 5\<rparr> \<le> int (length (ustr ''Dr No''))"
proof -
  have a: "fst (extract_names (counting_nlp [person (ustr ''No'') 3 5]) (ustr ''Dr No'') 0)
           = [\<lparr>name = ustr ''Dr No'', positions = [\<lparr>start_pos = 0, end_pos = 5\<rparr>]\<rparr>]"
    by code_simp
  have h: "\<forall>e\<in>set (fst (counting_nlp [person (ustr ''No'') 3 5] (ustr ''Dr No'') 0)).
      0 \<le> start_char e \<and> start_char e < end_char e \<and> end_char e \<le> int (length (ustr ''Dr No''))"
    by (simp add: counting_nlp_def person_def ustr_def)
  have r: "\<lparr>name = ustr ''Dr No'', positions = [\<lparr>start_pos = 0, end_pos = 5\<rparr>]\<rparr>
           \<in> set (fst (extract_names (counting_nlp [person (ustr ''No'') 3 5]) (ustr ''Dr No'') 0))"
    by (simp only: a) simp
  have p: "\<lparr>start_pos = 0, end_pos = 5\<rparr>
           \<in> set (positions \<lparr>name = ustr ''Dr No'', positions = [\<lparr>start_pos = 0, end_pos = 5\<rparr>]\<rparr>)"
    by simp
  show ?thesis using positions_in_range[OF h r p] a by blast
qed




text \<open>
  C10. An entity labelled PERSON is accepted whatever its text; an accepted entity
  whose normalized extracted text is empty leaves the dictionary as it is; and no
  record of the response has an empty name.
\<close>

theorem no_empty_name:
  "(label e = ustr ''PERSON'' \<longrightarrow> is_likely_person e text)
   \<and> (is_likely_person e text \<and> strip_possessive (extracted_text text e) = []
        \<longrightarrow> handle_entity text d e = d)
   \<and> (\<forall>r\<in>set (fst (extract_names nlp text s)). name r \<noteq> [])"
proof (intro conjI impI ballI)
  assume "label e = ustr ''PERSON''"
  then show "is_likely_person e text" by (simp add: is_likely_person_def)
next
  assume "is_likely_person e text \<and> strip_possessive (extracted_text text e) = []"
  then show "handle_entity text d e = d"
    by (simp add: handle_entity_candidate candidate_def)
next
  fix r assume "r \<in> set (fst (extract_names nlp text s))"
  then show "name r \<noteq> []" by (rule record_name_nonempty)
qed

text \<open>
  In \<open>Al  b\<close> the two blanks at 2..4, labelled PERSON, are accepted and dropped; \<open>Al\<close>
  is recorded.
\<close>

theorem no_empty_name_witness:
  "label (person [32, 32] 2 4) = ustr ''PERSON''
   \<and> is_likely_person (person [32, 32] 2 4) (ustr ''Al  b'')
   \<and> strip_possessive (extracted_text (ustr ''Al  b'') (person [32, 32] 2 4)) = []
   \<and> handle_entity (ustr ''Al  b'') [] (person [32, 32] 2 4) = []
   \<and> fst (extract_names (counting_nlp [person [32, 32] 2 4, person (ustr ''Al'') 0 2])
            (ustr ''Al  b'') 0)
       = [\<lparr>name = ustr ''Al'', positions = [\<lparr>start_pos = 0, end_pos = 2\<rparr>]\<rparr>]
   \<and> name \<lparr>name = ustr ''Al'', positions = [\<lparr>start_pos = 0, end_pos = 2\<rparr>]\<rparr> \<noteq> []"
proof -
  let ?e = "person [32, 32] 2 4"
  let ?t = "ustr ''Al  b''"
  let ?nlp = "counting_nlp [?e, person (ustr ''Al'') 0 2]"
  note inst = no_empty_name[of ?e ?t "[]" ?nlp 0]
  have l: "label ?e = ustr ''PERSON''" by (simp add: person_def)
  have x: "strip_possessive (extracted_text ?t ?e) = []" by code_simp
  have o: "fst (extract_names ?nlp ?t 0)
           = [\<lparr>name = ustr ''Al'', positions = [\<lparr>start_pos = 0, end_pos = 2\<rparr>]\<rparr>]"
    by code_simp
  from inst l have p: "is_likely_person ?e ?t" by blast
  from inst p x have h: "handle_entity ?t [] ?e = []" by blast
  have "\<lparr>name = ustr ''Al'', positions = [\<lparr>start_pos = 0, end_pos = 2\<rparr>]\<rparr>
        \<in> set (fst (extract_names ?nlp ?t 0))" by (simp only: o) simp
  with inst have n: "name \<lparr>name = ustr ''Al'', positions = [\<lparr>start_pos = 0, end_pos = 2\<rparr>]\<rparr> \<noteq> []"
    by blast
  show ?thesis using l p x h o n by blast
qed

end
